theory Spec2Isabelle
  imports Complex_Main
begin

section \<open>Data model (types.ts)\<close>

text \<open>
  JSON values carried in a context. Only the shape of a context as a key/value mapping
  matters to the pipeline, so values are a small closed datatype of primitive values.
\<close>

datatype JsValue = JNum int | JStr string | JBool bool

text \<open>
  \<^verbatim>\<open>AdapterContext\<close>: an open mapping from string keys to values. A context object is
  modelled by its own enumerable properties, which is what a spread copies and what
  \<^verbatim>\<open>JSON.stringify\<close> writes into a request.
\<close>

type_synonym AdapterContext = "string \<rightharpoonup> JsValue"

text \<open>\<^verbatim>\<open>AdapterRequest\<close>: the JSON body of one POST to \<^verbatim>\<open>/run-adapter\<close>.\<close>

record AdapterRequest =
  adapterId :: string
  input :: "string option"
  reqContext :: AdapterContext

datatype Status = StatusOk | StatusError

text \<open>
  \<^verbatim>\<open>AdapterResponse\<close>: every field but \<^verbatim>\<open>status\<close> is optional. \<^verbatim>\<open>data\<close>, when present, is
  the partial context update, a JSON object.
\<close>

record AdapterResponse =
  outputTxt :: "string option"
  status :: Status
  data :: "AdapterContext option"
  error :: "string option"

record RetryConfig =
  maxAttempts :: int
  baseDelay :: real
  maxDelay :: real
  backoffMultiplier :: real

text \<open>\<^verbatim>\<open>Partial<RetryConfig>\<close>: the \<^verbatim>\<open>retry\<close> field of \<^verbatim>\<open>AdapterConfig\<close>.\<close>

record PartialRetryConfig =
  pMaxAttempts :: "int option"
  pBaseDelay :: "real option"
  pMaxDelay :: "real option"
  pBackoffMultiplier :: "real option"

text \<open>
  \<^verbatim>\<open>AdapterConfig\<close>. Only \<^verbatim>\<open>retry\<close> influences the control flow of a call; the base
  URL, the headers, the timeout and the logging options are constant decorations of
  every request and are left out.
\<close>

record AdapterConfig =
  retry :: "PartialRetryConfig option"

datatype HealthStatus = healthy | degraded | unhealthy

record AdapterHealth =
  hstatus :: HealthStatus
  latency :: int
  lastCheck :: int
  hmessage :: "string option"

section \<open>The adapter registry (adapterRegistry.ts)\<close>

datatype AdapterType = tool | prompt | action

definition adapterRegistry :: "(string \<times> AdapterType) list" where
  "adapterRegistry =
     [(''pdf-text-extractor'', tool),
      (''persona-legal'', prompt),
      (''vector-search-legal'', tool),
      (''risk-analyzer'', tool),
      (''slack-sender'', action),
      (''db-logger'', action),
      (''telegram-alert'', action)]"

text \<open>\<^verbatim>\<open>Object.keys(adapterRegistry)\<close>: the own keys, in insertion order.\<close>

definition registryKeys :: "string list" where
  "registryKeys = map fst adapterRegistry"

text \<open>
  \<^verbatim>\<open>adapterRegistry\<close> is an object literal, so its prototype is \<^verbatim>\<open>Object.prototype\<close>.
  These are the property names it inherits.
\<close>

definition objectPrototypeKeys :: "string list" where
  "objectPrototypeKeys =
     [''constructor'', ''__defineGetter__'', ''__defineSetter__'', ''hasOwnProperty'',
      ''__lookupGetter__'', ''__lookupSetter__'', ''isPrototypeOf'',
      ''propertyIsEnumerable'', ''toString'', ''valueOf'', ''__proto__'',
      ''toLocaleString'']"

text \<open>
  \<^verbatim>\<open>isValidAdapterId(id) { return id in adapterRegistry; }\<close>
  The \<^verbatim>\<open>in\<close> operator is true for own and for inherited properties.
\<close>

definition isValidAdapterId :: "string \<Rightarrow> bool" where
  "isValidAdapterId aid \<longleftrightarrow> aid \<in> set registryKeys \<or> aid \<in> set objectPrototypeKeys"

section \<open>The client (client.ts)\<close>

subsection \<open>The transport collaborator\<close>

text \<open>
  What one \<^verbatim>\<open>fetch\<close> of the try block can do: reject (a network error or a timeout,
  an \<^verbatim>\<open>Error\<close> with a message and no \<^verbatim>\<open>status\<close>), or resolve to an HTTP response with
  a status code, a status text and a body that \<^verbatim>\<open>response.json()\<close> either parses or
  rejects.
\<close>

datatype HttpBody = Json AdapterResponse | Malformed string

datatype FetchOutcome = Rejected string | Responded int string HttpBody

text \<open>
  The transport of one \<^verbatim>\<open>callAdapter\<close> invocation: the outcome of its attempt number
  \<open>k\<close> (1-based, as the loop counter) on the request sent.
\<close>

type_synonym Transport = "int \<Rightarrow> AdapterRequest \<Rightarrow> FetchOutcome"

text \<open>
  What a call does to the outside world, in order: the requests it posts and the delays it
  waits. The logger calls are left out: they return nothing and decide nothing.
\<close>

datatype Event = Fetch AdapterRequest | Sleep real

text \<open>An \<^verbatim>\<open>Error\<close> object caught by the retry loop.\<close>

record ThrownError =
  message :: string
  estatus :: "int option"

subsection \<open>Retry policy\<close>

definition defaultRetryConfig :: RetryConfig where
  "defaultRetryConfig =
     \<lparr>maxAttempts = 3, baseDelay = 1000, maxDelay = 10000, backoffMultiplier = 2\<rparr>"

text \<open>\<^verbatim>\<open>{ ...this.defaultRetryConfig, ...this.config.retry }\<close>\<close>

definition mergeRetryConfig :: "AdapterConfig \<Rightarrow> RetryConfig" where
  "mergeRetryConfig cfg =
     (case retry cfg of
        None \<Rightarrow> defaultRetryConfig
      | Some p \<Rightarrow>
          \<lparr>maxAttempts = (case pMaxAttempts p of Some v \<Rightarrow> v | None \<Rightarrow> maxAttempts defaultRetryConfig),
           baseDelay = (case pBaseDelay p of Some v \<Rightarrow> v | None \<Rightarrow> baseDelay defaultRetryConfig),
           maxDelay = (case pMaxDelay p of Some v \<Rightarrow> v | None \<Rightarrow> maxDelay defaultRetryConfig),
           backoffMultiplier =
             (case pBackoffMultiplier p of Some v \<Rightarrow> v
              | None \<Rightarrow> backoffMultiplier defaultRetryConfig)\<rparr>)"

text \<open>
  \<^verbatim>\<open>getRetryDelay\<close>. Delays are idealised as real numbers; the loop only calls it with
  \<open>attempt \<ge> 1\<close>, so the exponent is a natural number.
\<close>

definition getRetryDelay :: "int \<Rightarrow> RetryConfig \<Rightarrow> real" where
  "getRetryDelay attempt rc =
     (let delay = baseDelay rc * backoffMultiplier rc ^ nat (attempt - 1)
      in min delay (maxDelay rc))"

text \<open>
  \<^verbatim>\<open>shouldRetry\<close>. A missing \<^verbatim>\<open>status\<close> compares false against both bounds.
\<close>

definition shouldRetry :: "ThrownError \<Rightarrow> int \<Rightarrow> int \<Rightarrow> bool" where
  "shouldRetry err attempt maxAtt =
     (if attempt \<ge> maxAtt then False
      else if (case estatus err of Some s \<Rightarrow> s \<ge> 400 \<and> s < 500 | None \<Rightarrow> False) then False
      else True)"

subsection \<open>callAdapter\<close>

text \<open>
  The body of the try block once \<^verbatim>\<open>fetch\<close> has settled: a non-2xx response is thrown
  as an \<^verbatim>\<open>Error\<close> carrying the status; a body that does not parse is thrown by
  \<^verbatim>\<open>response.json()\<close>; otherwise the parsed result is returned.
\<close>

definition attemptOnce :: "string \<Rightarrow> FetchOutcome \<Rightarrow> ThrownError + AdapterResponse" where
  "attemptOnce aid fo =
     (case fo of
        Rejected msg \<Rightarrow> Inl \<lparr>message = msg, estatus = None\<rparr>
      | Responded st stText body \<Rightarrow>
          if \<not> (200 \<le> st \<and> st \<le> 299)
          then Inl \<lparr>message = ''Adapter '' @ aid @ '' failed: '' @ stText, estatus = Some st\<rparr>
          else (case body of
                  Malformed msg \<Rightarrow> Inl \<lparr>message = msg, estatus = None\<rparr>
                | Json r \<Rightarrow> Inr r))"

text \<open>The value built after the loop from \<^verbatim>\<open>lastError\<close>.\<close>

definition errorResponse :: "ThrownError option \<Rightarrow> AdapterResponse" where
  "errorResponse lastError =
     \<lparr>outputTxt = None, status = StatusError, data = None,
      error = Some (case lastError of Some e \<Rightarrow> message e
                    | None \<Rightarrow> ''Unknown error occurred'')\<rparr>"

text \<open>
  The \<^verbatim>\<open>for (let attempt = 1; attempt <= retryConfig.maxAttempts; attempt++)\<close> loop,
  entered at \<open>attempt\<close> with the current \<^verbatim>\<open>lastError\<close>. It yields the value that
  \<^verbatim>\<open>callAdapter\<close> returns and the events of this and the later attempts.
\<close>

function retryLoop ::
  "RetryConfig \<Rightarrow> Transport \<Rightarrow> AdapterRequest \<Rightarrow> int \<Rightarrow> ThrownError option
     \<Rightarrow> AdapterResponse \<times> Event list" where
  "retryLoop rc tr req attempt lastError =
     (if attempt \<le> maxAttempts rc then
        (case attemptOnce (adapterId req) (tr attempt req) of
           Inr result \<Rightarrow> (result, [Fetch req])
         | Inl err \<Rightarrow>
             if \<not> shouldRetry err attempt (maxAttempts rc)
             then (errorResponse (Some err), [Fetch req])
             else if attempt < maxAttempts rc
             then (case retryLoop rc tr req (attempt + 1) (Some err) of
                     (r, evs) \<Rightarrow> (r, Fetch req # Sleep (getRetryDelay attempt rc) # evs))
             else (case retryLoop rc tr req (attempt + 1) (Some err) of
                     (r, evs) \<Rightarrow> (r, Fetch req # evs)))
      else (errorResponse lastError, []))"
  by pat_completeness auto
termination
  by (relation "measure (\<lambda>(rc, tr, req, attempt, lastError). nat (maxAttempts rc + 1 - attempt))")
    auto

declare retryLoop.simps [simp del]

text \<open>
  \<^verbatim>\<open>callAdapter\<close>: \<open>Inl msg\<close> is the thrown \<^verbatim>\<open>Error(msg)\<close>, \<open>Inr r\<close> the returned
  response.
\<close>

definition callAdapter ::
  "AdapterConfig \<Rightarrow> Transport \<Rightarrow> string \<Rightarrow> string option \<Rightarrow> AdapterContext
     \<Rightarrow> (string + AdapterResponse) \<times> Event list" where
  "callAdapter cfg tr aid inp ctx =
     (if \<not> isValidAdapterId aid then (Inl (''Invalid adapter ID: '' @ aid), [])
      else
        (case retryLoop (mergeRetryConfig cfg) tr
                \<lparr>adapterId = aid, input = inp, reqContext = ctx\<rparr> 1 None of
           (r, evs) \<Rightarrow> (Inr r, evs)))"

subsection \<open>batchCallAdapters\<close>

text \<open>
  One \<^verbatim>\<open>callAdapter\<close> invocation as its caller and the network see it: the request it
  was made with, what it threw or returned, and its events.
\<close>

record Invocation =
  invRequest :: AdapterRequest
  invOutcome :: "string + AdapterResponse"
  invEvents :: "Event list"

definition invoke ::
  "AdapterConfig \<Rightarrow> Transport \<Rightarrow> string \<Rightarrow> string option \<Rightarrow> AdapterContext \<Rightarrow> Invocation" where
  "invoke cfg tr aid inp ctx =
     (case callAdapter cfg tr aid inp ctx of
        (res, evs) \<Rightarrow>
          \<lparr>invRequest = \<lparr>adapterId = aid, input = inp, reqContext = ctx\<rparr>,
           invOutcome = res, invEvents = evs\<rparr>)"

text \<open>
  \<^verbatim>\<open>Promise.all\<close> over promises that settle to the given outcomes. A promise that is
  rejected makes the aggregate reject; the rejections of \<^verbatim>\<open>callAdapter\<close> happen before
  its first suspension, so the earliest in list order wins. Otherwise each value is
  stored at the index of its promise when that promise resolves; \<open>order\<close> lists the
  indices in the order in which the promises resolve. The aggregate resolves to the array
  of slots once all are filled, and stays pending (\<open>None\<close>) until then.
\<close>

fun firstRejection :: "('e + 'a) list \<Rightarrow> 'e option" where
  "firstRejection [] = None"
| "firstRejection (Inl e # rest) = Some e"
| "firstRejection (Inr v # rest) = firstRejection rest"





section \<open>The executor (executor.ts)\<close>

text \<open>How a template literal renders a value of type \<^verbatim>\<open>string | undefined\<close>.\<close>

definition showOpt :: "string option \<Rightarrow> string" where
  "showOpt s = (case s of Some t \<Rightarrow> t | None \<Rightarrow> ''undefined'')"

text \<open>
  \<^verbatim>\<open>Object.assign(target, source)\<close> on a target that inherits from \<^verbatim>\<open>Object.prototype\<close>, as
  \<^verbatim>\<open>{ ...context }\<close> does. Every own key of the source is written to the target with an
  ordinary assignment. For every key but \<^verbatim>\<open>__proto__\<close> this creates or overwrites the own
  property. For \<^verbatim>\<open>__proto__\<close> (an own key of any source that \<^verbatim>\<open>JSON.parse\<close> built from a body
  holding it) the assignment overwrites the own property when the target has one, which a
  spread copy of a context holding the key has; otherwise it reaches the setter inherited
  from \<^verbatim>\<open>Object.prototype\<close>, which ignores a primitive value, and no key is created.
\<close>

definition objectAssign :: "AdapterContext \<Rightarrow> AdapterContext \<Rightarrow> AdapterContext" where
  "objectAssign target source =
     (\<lambda>key. if key = ''__proto__'' \<and> target key = None then None
            else (target ++ source) key)"

text \<open>
  The loop of \<^verbatim>\<open>runBeforeLLM\<close>, at the \<open>k\<close>-th invocation of the run, with the
  current values of \<^verbatim>\<open>currentInput\<close> and \<^verbatim>\<open>updatedContext\<close>. The result is the thrown
  message or the returned pair, with the invocations made.
\<close>

fun beforeLoop ::
  "AdapterConfig \<Rightarrow> (nat \<Rightarrow> Transport) \<Rightarrow> nat \<Rightarrow> string list \<Rightarrow> string \<Rightarrow> AdapterContext
     \<Rightarrow> (string + string \<times> AdapterContext) \<times> Invocation list" where
  "beforeLoop cfg net k [] currentInput updatedContext =
     (Inr (currentInput, updatedContext), [])"
| "beforeLoop cfg net k (aid # rest) currentInput updatedContext =
     (let call = invoke cfg (net k) aid (Some currentInput) updatedContext
      in case invOutcome call of
           Inl e \<Rightarrow> (Inl e, [call])
         | Inr r \<Rightarrow>
             if status r = StatusError
             then (Inl (''Adapter '' @ aid @ '' failed after retries: '' @ showOpt (error r)),
                   [call])
             else
               let currentInput' =
                     (case outputTxt r of
                        Some s \<Rightarrow> if s \<noteq> [] then s else currentInput
                      | None \<Rightarrow> currentInput);
                   updatedContext' =
                     (case data r of
                        Some d \<Rightarrow> objectAssign updatedContext d
                      | None \<Rightarrow> updatedContext)
               in case beforeLoop cfg net (Suc k) rest currentInput' updatedContext' of
                    (res, calls) \<Rightarrow> (res, call # calls))"

definition runBeforeLLM ::
  "AdapterConfig \<Rightarrow> (nat \<Rightarrow> Transport) \<Rightarrow> string \<Rightarrow> string list \<Rightarrow> AdapterContext
     \<Rightarrow> (string + string \<times> AdapterContext) \<times> Invocation list" where
  "runBeforeLLM cfg net inp adapterIds ctx = beforeLoop cfg net 0 adapterIds inp ctx"

fun afterLoop ::
  "AdapterConfig \<Rightarrow> (nat \<Rightarrow> Transport) \<Rightarrow> nat \<Rightarrow> string list \<Rightarrow> AdapterContext
     \<Rightarrow> (string + unit) \<times> Invocation list" where
  "afterLoop cfg net k [] ctx = (Inr (), [])"
| "afterLoop cfg net k (aid # rest) ctx =
     (let call = invoke cfg (net k) aid None ctx
      in case invOutcome call of
           Inl e \<Rightarrow> (Inl e, [call])
         | Inr r \<Rightarrow>
             if status r = StatusError
             then (Inl (''Post-LLM adapter '' @ aid @ '' failed after retries: ''
                          @ showOpt (error r)),
                   [call])
             else (case afterLoop cfg net (Suc k) rest ctx of
                     (res, calls) \<Rightarrow> (res, call # calls)))"

definition runAfterLLM ::
  "AdapterConfig \<Rightarrow> (nat \<Rightarrow> Transport) \<Rightarrow> AdapterContext \<Rightarrow> string list
     \<Rightarrow> (string + unit) \<times> Invocation list" where
  "runAfterLLM cfg net ctx adapterIds = afterLoop cfg net 0 adapterIds ctx"



section \<open>The health manager (healthManager.ts)\<close>

record SystemHealth =
  sstatus :: HealthStatus
  adapters :: "string \<rightharpoonup> AdapterHealth"
  timestamp :: int

text \<open>
  The fields of a \<^verbatim>\<open>HealthManager\<close>. A timer handle is always truthy (an object under
  Node, a positive number in a browser), so \<^verbatim>\<open>if (this.checkInterval)\<close> tests for
  \<open>Some\<close>.
\<close>

record HealthManager =
  healthState :: "string \<rightharpoonup> AdapterHealth"
  checkInterval :: "nat option"
  lastSystemCheck :: "int option"

text \<open>
  The clock is any sequence of readings: \<open>clock n\<close> is what the \<open>n\<close>-th reading of the
  run (\<^verbatim>\<open>Date.now()\<close> or \<^verbatim>\<open>new Date()\<close>) returns. Every function that reads it takes the
  number of readings so far and returns the new number.
\<close>

type_synonym Clock = "nat \<Rightarrow> int"

text \<open>
  \<^verbatim>\<open>checkAdapterHealth\<close>: the probe is a \<^verbatim>\<open>callAdapter\<close> with a null input and the
  context \<^verbatim>\<open>{ healthCheck: true }\<close>; the catch branch handles what it throws.
\<close>

definition checkAdapterHealth ::
  "AdapterConfig \<Rightarrow> Clock \<Rightarrow> nat \<Rightarrow> Transport \<Rightarrow> string \<Rightarrow> AdapterHealth \<times> nat \<times> Invocation" where
  "checkAdapterHealth cfg clock n tr aid =
     (let startTime = clock n;
          call = invoke cfg tr aid None [''healthCheck'' \<mapsto> JBool True]
      in case invOutcome call of
           Inr response \<Rightarrow>
             let lat = clock (n + 1) - startTime
             in if status response = StatusError
                then (\<lparr>hstatus = unhealthy, latency = lat, lastCheck = clock (n + 2),
                       hmessage = error response\<rparr>, n + 3, call)
                else
                  let st = (if lat > 1000 then degraded else healthy)
                  in (\<lparr>hstatus = st, latency = lat, lastCheck = clock (n + 2),
                       hmessage = (if st = degraded then Some ''High latency detected''
                                   else None)\<rparr>, n + 3, call)
         | Inl e \<Rightarrow>
             (\<lparr>hstatus = unhealthy, latency = clock (n + 1) - startTime,
               lastCheck = clock (n + 2), hmessage = Some e\<rparr>, n + 3, call))"

text \<open>The \<^verbatim>\<open>reduce\<close> that fills the result with placeholder records.\<close>

fun initAdapters ::
  "Clock \<Rightarrow> nat \<Rightarrow> string list \<Rightarrow> (string \<rightharpoonup> AdapterHealth)
     \<Rightarrow> (string \<rightharpoonup> AdapterHealth) \<times> nat" where
  "initAdapters clock n [] acc = (acc, n)"
| "initAdapters clock n (aid # rest) acc =
     initAdapters clock (Suc n) rest
       (acc(aid \<mapsto> \<lparr>hstatus = unhealthy, latency = 0, lastCheck = clock n,
                     hmessage = Some ''Not checked yet''\<rparr>))"

text \<open>The variables the probing loop of \<^verbatim>\<open>checkSystemHealth\<close> updates.\<close>

record CheckVars =
  cvReadings :: nat
  cvAdapters :: "string \<rightharpoonup> AdapterHealth"
  cvHealthState :: "string \<rightharpoonup> AdapterHealth"
  cvOverall :: HealthStatus

fun checkLoop ::
  "AdapterConfig \<Rightarrow> Clock \<Rightarrow> (nat \<Rightarrow> Transport) \<Rightarrow> nat \<Rightarrow> string list \<Rightarrow> CheckVars
     \<Rightarrow> CheckVars \<times> Invocation list" where
  "checkLoop cfg clock net k [] vars = (vars, [])"
| "checkLoop cfg clock net k (aid # rest) vars =
     (case checkAdapterHealth cfg clock (cvReadings vars) (net k) aid of
        (health, n', call) \<Rightarrow>
          let overall' =
                (if hstatus health = unhealthy then unhealthy
                 else if hstatus health = degraded \<and> cvOverall vars = healthy then degraded
                 else cvOverall vars);
              vars' = \<lparr>cvReadings = n',
                       cvAdapters = (cvAdapters vars)(aid \<mapsto> health),
                       cvHealthState = (cvHealthState vars)(aid \<mapsto> health),
                       cvOverall = overall'\<rparr>
          in case checkLoop cfg clock net (Suc k) rest vars' of
               (final, calls) \<Rightarrow> (final, call # calls))"

text \<open>
  \<^verbatim>\<open>checkSystemHealth\<close>: the snapshot returned, the manager afterwards, the number of
  clock readings afterwards and the probes made.
\<close>

definition checkSystemHealth ::
  "AdapterConfig \<Rightarrow> Clock \<Rightarrow> (nat \<Rightarrow> Transport) \<Rightarrow> nat \<Rightarrow> HealthManager
     \<Rightarrow> SystemHealth \<times> HealthManager \<times> nat \<times> Invocation list" where
  "checkSystemHealth cfg clock net n hm =
     (case initAdapters clock n registryKeys Map.empty of
        (adapters0, n0) \<Rightarrow>
          (case checkLoop cfg clock net 0 registryKeys
                  \<lparr>cvReadings = n0, cvAdapters = adapters0,
                   cvHealthState = healthState hm, cvOverall = healthy\<rparr> of
             (vars, calls) \<Rightarrow>
               let now = clock (cvReadings vars)
               in (\<lparr>sstatus = cvOverall vars, adapters = cvAdapters vars, timestamp = now\<rparr>,
                   hm\<lparr>healthState := cvHealthState vars, lastSystemCheck := Some now\<rparr>,
                   Suc (cvReadings vars), calls)))"

subsection \<open>Monitoring\<close>

text \<open>
  The timers of the runtime: the repeating timers that are active, each with its handle
  and its period, the next fresh handle, and the number of \<^verbatim>\<open>checkSystemHealth\<close> runs
  that \<^verbatim>\<open>startMonitoring\<close> has launched itself.
\<close>

record Runtime =
  activeIntervals :: "(nat \<times> real) list"
  nextHandle :: nat
  checksLaunched :: nat

definition setInterval :: "Runtime \<Rightarrow> real \<Rightarrow> nat \<times> Runtime" where
  "setInterval rt ms =
     (nextHandle rt,
      rt\<lparr>activeIntervals := activeIntervals rt @ [(nextHandle rt, ms)],
         nextHandle := Suc (nextHandle rt)\<rparr>)"

definition clearInterval :: "Runtime \<Rightarrow> nat \<Rightarrow> Runtime" where
  "clearInterval rt h = rt\<lparr>activeIntervals := filter (\<lambda>(h', ms). h' \<noteq> h) (activeIntervals rt)\<rparr>"

text \<open>\<^verbatim>\<open>startMonitoring(interval: number = 60000)\<close>\<close>

definition startMonitoring ::
  "HealthManager \<times> Runtime \<Rightarrow> real option \<Rightarrow> HealthManager \<times> Runtime" where
  "startMonitoring s interval =
     (case s of
        (hm, rt) \<Rightarrow>
          let ms = (case interval of Some i \<Rightarrow> i | None \<Rightarrow> 60000);
              rt1 = (case checkInterval hm of Some h \<Rightarrow> clearInterval rt h | None \<Rightarrow> rt);
              rt2 = rt1\<lparr>checksLaunched := Suc (checksLaunched rt1)\<rparr>
          in case setInterval rt2 ms of
               (h, rt3) \<Rightarrow> (hm\<lparr>checkInterval := Some h\<rparr>, rt3))"

definition stopMonitoring :: "HealthManager \<times> Runtime \<Rightarrow> HealthManager \<times> Runtime" where
  "stopMonitoring s =
     (case s of
        (hm, rt) \<Rightarrow>
          (case checkInterval hm of
             Some h \<Rightarrow> (hm\<lparr>checkInterval := None\<rparr>, clearInterval rt h)
           | None \<Rightarrow> (hm, rt)))"

text \<open>The manager as its constructor leaves it, in a runtime with no timer yet.\<close>

definition newHealthManager :: "HealthManager \<times> Runtime" where
  "newHealthManager =
     (\<lparr>healthState = Map.empty, checkInterval = None, lastSystemCheck = None\<rparr>,
      \<lparr>activeIntervals = [], nextHandle = 1, checksLaunched = 0\<rparr>)"

datatype MonitorCall = Start "real option" | Stop

fun monitorCall :: "MonitorCall \<Rightarrow> HealthManager \<times> Runtime \<Rightarrow> HealthManager \<times> Runtime" where
  "monitorCall (Start interval) s = startMonitoring s interval"
| "monitorCall Stop s = stopMonitoring s"

section \<open>Specification-level notions\<close>

subsection \<open>Retry schedule\<close>

fun isFetch :: "Event \<Rightarrow> bool" where
  "isFetch (Fetch req) = True"
| "isFetch (Sleep d) = False"

text \<open>The number of transport attempts among the events of a call.\<close>

definition attempts :: "Event list \<Rightarrow> nat" where
  "attempts evs = length (filter isFetch evs)"

text \<open>The delay the specification prescribes before attempt \<open>k\<close>, for \<open>k \<ge> 2\<close>.\<close>

definition delayBefore :: "RetryConfig \<Rightarrow> nat \<Rightarrow> real" where
  "delayBefore rc k = min (baseDelay rc * backoffMultiplier rc ^ (k - 2)) (maxDelay rc)"

text \<open>
  The events of \<open>n\<close> consecutive attempts of which the first has number \<open>k\<close>: every
  attempt from the second on is preceded by its delay, the first by none.
\<close>

fun scheduleAt :: "RetryConfig \<Rightarrow> AdapterRequest \<Rightarrow> nat \<Rightarrow> nat \<Rightarrow> Event list" where
  "scheduleAt rc req k 0 = []"
| "scheduleAt rc req k (Suc n) =
     (if k \<ge> 2 then [Sleep (delayBefore rc k)] else []) @ Fetch req # scheduleAt rc req (Suc k) n"

definition schedule :: "RetryConfig \<Rightarrow> AdapterRequest \<Rightarrow> nat \<Rightarrow> Event list" where
  "schedule rc req n = scheduleAt rc req 1 n"

subsection \<open>Sample transports\<close>

text \<open>A transport on which every attempt fails at the network level.\<close>

definition downTransport :: Transport where
  "downTransport k req = Rejected ''socket hang up''"

text \<open>A transport that answers every attempt with a client error.\<close>

definition notFoundTransport :: Transport where
  "notFoundTransport k req = Responded 404 ''Not Found'' (Malformed [])"

definition okTransport :: "AdapterResponse \<Rightarrow> Transport" where
  "okTransport r k req = Responded 200 ''OK'' (Json r)"

text \<open>Sample responses: one with an output and a context update, one with an output only,
  one whose output is the empty string.\<close>

definition respY :: AdapterResponse where
  "respY = \<lparr>outputTxt = Some ''y'', status = StatusOk, data = Some [''foo'' \<mapsto> JNum 1], error = None\<rparr>"

definition respZ :: AdapterResponse where
  "respZ = \<lparr>outputTxt = Some ''z'', status = StatusOk, data = None, error = None\<rparr>"

definition respBlank :: AdapterResponse where
  "respBlank = \<lparr>outputTxt = Some [], status = StatusOk, data = None, error = None\<rparr>"

text \<open>
  An adapter that answers \<open>z\<close> only when it is sent the input \<open>y\<close> and a context in which
  \<open>foo\<close> is 1, and rejects every other request as a bad request.
\<close>

definition observingTransport :: Transport where
  "observingTransport k req =
     (if input req = Some ''y'' \<and> reqContext req ''foo'' = Some (JNum 1)
      then Responded 200 ''OK'' (Json respZ)
      else Responded 400 ''Bad Request'' (Malformed []))"

definition exampleNet :: "nat \<Rightarrow> Transport" where
  "exampleNet k = (if k = 0 then okTransport respY else observingTransport)"

definition failingNet :: "nat \<Rightarrow> Transport" where
  "failingNet k = (if k = 0 then okTransport respY else downTransport)"

definition blankNet :: "nat \<Rightarrow> Transport" where
  "blankNet k = (if k = 0 then okTransport respBlank else okTransport respZ)"

definition initialContext :: AdapterContext where
  "initialContext = [''userId'' \<mapsto> JStr ''user_123'']"

text \<open>
  An adapter whose update holds the key \<^verbatim>\<open>__proto__\<close> beside an ordinary key, followed by an
  adapter that answers \<open>z\<close>.
\<close>

definition respProto :: AdapterResponse where
  "respProto = \<lparr>outputTxt = None, status = StatusOk,
                data = Some [''__proto__'' \<mapsto> JNum 1, ''a'' \<mapsto> JNum 2], error = None\<rparr>"

definition protoNet :: "nat \<Rightarrow> Transport" where
  "protoNet k = (if k = 0 then okTransport respProto else okTransport respZ)"

subsection \<open>Threading through a sequential chain\<close>

text \<open>
  What the specification says the next adapter receives: the output of the previous one
  when there is one and it is not the empty string, else the previous input; and the
  previous context with the update merged in, keys of the update winning.
\<close>

definition nextInput :: "string \<Rightarrow> AdapterResponse \<Rightarrow> string" where
  "nextInput prev r = (case outputTxt r of Some s \<Rightarrow> if s = [] then prev else s | None \<Rightarrow> prev)"

definition nextContext :: "AdapterContext \<Rightarrow> AdapterResponse \<Rightarrow> AdapterContext" where
  "nextContext ctx r = (case data r of Some d \<Rightarrow> ctx ++ d | None \<Rightarrow> ctx)"

definition threadStep :: "string \<times> AdapterContext \<Rightarrow> Invocation \<Rightarrow> string \<times> AdapterContext" where
  "threadStep s c =
     (case invOutcome c of
        Inr r \<Rightarrow> (nextInput (fst s) r, nextContext (snd s) r)
      | Inl e \<Rightarrow> s)"

text \<open>The input and the context after the given invocations, starting from \<open>inp\<close> and \<open>ctx\<close>.\<close>

definition threadedState :: "string \<Rightarrow> AdapterContext \<Rightarrow> Invocation list \<Rightarrow> string \<times> AdapterContext" where
  "threadedState inp ctx calls = foldl threadStep (inp, ctx) calls"

text \<open>A context without the key \<^verbatim>\<open>__proto__\<close>.\<close>

definition exceptProto :: "AdapterContext \<Rightarrow> AdapterContext" where
  "exceptProto m = m(''__proto__'' := None)"

text \<open>
  The same threading as the loops of the executor compute it, with \<open>objectAssign\<close> for the
  merge: the accumulated context after the update of a response, and the input and the
  context after the given invocations.
\<close>

definition assignUpdate :: "AdapterContext \<Rightarrow> AdapterResponse \<Rightarrow> AdapterContext" where
  "assignUpdate ctx r = (case data r of Some d \<Rightarrow> objectAssign ctx d | None \<Rightarrow> ctx)"

definition loopStep :: "string \<times> AdapterContext \<Rightarrow> Invocation \<Rightarrow> string \<times> AdapterContext" where
  "loopStep s c =
     (case invOutcome c of
        Inr r \<Rightarrow> (nextInput (fst s) r, assignUpdate (snd s) r)
      | Inl e \<Rightarrow> s)"

definition loopState :: "string \<Rightarrow> AdapterContext \<Rightarrow> Invocation list \<Rightarrow> string \<times> AdapterContext" where
  "loopState inp ctx calls = foldl loopStep (inp, ctx) calls"

subsection \<open>Parallel fan-out\<close>












subsection \<open>Health\<close>

text \<open>The context of a probe.\<close>

definition probeContext :: AdapterContext where
  "probeContext = [''healthCheck'' \<mapsto> JBool True]"

text \<open>The worst-case rule of the specification over a list of statuses.\<close>

definition worstOf :: "HealthStatus list \<Rightarrow> HealthStatus" where
  "worstOf sts =
     (if unhealthy \<in> set sts then unhealthy
      else if degraded \<in> set sts then degraded
      else healthy)"

text \<open>The statuses of the records that a snapshot holds for the given identifiers.\<close>

definition recordedStatuses :: "(string \<rightharpoonup> AdapterHealth) \<Rightarrow> string list \<Rightarrow> HealthStatus list" where
  "recordedStatuses m ids =
     concat (map (\<lambda>aid. case m aid of Some h \<Rightarrow> [hstatus h] | None \<Rightarrow> []) ids)"

text \<open>
  The records that consecutive probes of the given identifiers produce, the first probe
  being invocation \<open>k\<close> and starting at clock reading \<open>n\<close>.
\<close>

fun probes ::
  "AdapterConfig \<Rightarrow> Clock \<Rightarrow> (nat \<Rightarrow> Transport) \<Rightarrow> nat \<Rightarrow> nat \<Rightarrow> string list \<Rightarrow> AdapterHealth list" where
  "probes cfg clock net k n [] = []"
| "probes cfg clock net k n (aid # rest) =
     fst (checkAdapterHealth cfg clock n (net k) aid) # probes cfg clock net (Suc k) (n + 3) rest"

text \<open>The loop variables after one iteration that probed \<open>aid\<close> with the result \<open>health\<close>.\<close>

definition afterProbe :: "CheckVars \<Rightarrow> string \<Rightarrow> AdapterHealth \<Rightarrow> CheckVars" where
  "afterProbe vars aid health =
     \<lparr>cvReadings = cvReadings vars + 3,
      cvAdapters = (cvAdapters vars)(aid \<mapsto> health),
      cvHealthState = (cvHealthState vars)(aid \<mapsto> health),
      cvOverall =
        (if hstatus health = unhealthy then unhealthy
         else if hstatus health = degraded \<and> cvOverall vars = healthy then degraded
         else cvOverall vars)\<rparr>"

text \<open>
  A clock on which the first probe of a system check started at reading 0 takes 1500 time
  units and every later one none; and a network on which every adapter answers at once.
\<close>

definition slowFirstClock :: Clock where
  "slowFirstClock i = (if i \<le> 7 then 0 else 1500)"

definition healthyNet :: "nat \<Rightarrow> Transport" where
  "healthyNet k = okTransport respZ"

subsection \<open>Monitoring\<close>

text \<open>The active timers are exactly the one the manager holds a handle of, if any.\<close>

definition monitorInvariant :: "HealthManager \<times> Runtime \<Rightarrow> bool" where
  "monitorInvariant s \<longleftrightarrow>
     map fst (activeIntervals (snd s)) =
       (case checkInterval (fst s) of Some h \<Rightarrow> [h] | None \<Rightarrow> [])"


section \<open>The retry loop\<close>

lemmas eval_client =
  callAdapter_def isValidAdapterId_def registryKeys_def adapterRegistry_def objectPrototypeKeys_def
  mergeRetryConfig_def defaultRetryConfig_def retryLoop.simps attemptOnce_def shouldRetry_def
  getRetryDelay_def errorResponse_def

lemma delayBefore_getRetryDelay:
  "1 \<le> a \<Longrightarrow> delayBefore rc (Suc (nat a)) = getRetryDelay a rc"
  by (simp add: delayBefore_def getRetryDelay_def nat_diff_distrib)

text \<open>
  The events of the loop entered at attempt \<open>a\<close>: a fetch, then the schedule of the
  remaining attempts; and the loop makes no more attempts than remain.
\<close>

lemma retryLoop_events:
  "1 \<le> a \<Longrightarrow> retryLoop rc tr req a le = (r, evs) \<Longrightarrow>
     (if a \<le> maxAttempts rc
      then 1 \<le> attempts evs \<and> evs = Fetch req # scheduleAt rc req (Suc (nat a)) (attempts evs - 1)
      else evs = []) \<and>
     int (attempts evs) \<le> max 0 (maxAttempts rc + 1 - a)"
proof (induction rc tr req a le arbitrary: r evs rule: retryLoop.induct)
  case (1 rc tr req attempt lastError)
  show ?case
  proof (cases "attempt \<le> maxAttempts rc")
    case False
    with "1.prems" show ?thesis
      by (auto simp: retryLoop.simps attempts_def)
  next
    case le: True
    show ?thesis
    proof (cases "attemptOnce (adapterId req) (tr attempt req)")
      case (Inr result)
      with le "1.prems" show ?thesis
        by (auto simp: retryLoop.simps attempts_def)
    next
      case (Inl err)
      show ?thesis
      proof (cases "shouldRetry err attempt (maxAttempts rc)")
        case False
        with le Inl "1.prems" show ?thesis
          by (auto simp: retryLoop.simps attempts_def)
      next
        case True
        then have lt: "attempt < maxAttempts rc"
          by (simp add: shouldRetry_def split: if_splits)
        obtain r' evs' where rec: "retryLoop rc tr req (attempt + 1) (Some err) = (r', evs')"
          by (cases "retryLoop rc tr req (attempt + 1) (Some err)")
        from "1.prems"(2) le Inl True lt rec
        have evs: "evs = Fetch req # Sleep (getRetryDelay attempt rc) # evs'" and "r = r'"
          by (auto simp: retryLoop.simps [of rc tr req attempt])
        have ih: "1 \<le> attempts evs' \<and>
                  evs' = Fetch req # scheduleAt rc req (Suc (nat (attempt + 1))) (attempts evs' - 1) \<and>
                  int (attempts evs') \<le> max 0 (maxAttempts rc + 1 - (attempt + 1))"
          using "1.IH"(1) [OF le Inl _ lt _ rec] True "1.prems"(1) lt by simp
        have n: "nat (attempt + 1) = Suc (nat attempt)"
          using "1.prems"(1) by simp
        obtain m where m: "attempts evs' = Suc m"
          using ih by (cases "attempts evs'") auto
        have att: "attempts evs = Suc (attempts evs')"
          by (simp add: evs attempts_def)
        have "evs = Fetch req # scheduleAt rc req (Suc (nat attempt)) (attempts evs - 1)"
          using ih m att n evs delayBefore_getRetryDelay [OF "1.prems"(1), of rc] "1.prems"(1)
          by simp
        with ih att le lt show ?thesis by simp
      qed
    qed
  qed
qed

lemma retryLoop_client_error:
  assumes "1 \<le> maxAttempts rc"
    and "attemptOnce (adapterId req) (tr 1 req) = Inl err"
    and "estatus err = Some s" and "400 \<le> s" and "s < 500"
  shows "retryLoop rc tr req 1 None = (errorResponse (Some err), [Fetch req])"
  using assms by (simp add: retryLoop.simps [of rc tr req 1] shouldRetry_def)

text \<open>
  Claim C3. For a retry policy with \<open>maxAttempts \<ge> 1\<close> and a valid identifier, the events
  of \<open>callAdapter\<close> hold at most \<open>maxAttempts\<close> transport attempts; they are exactly the
  specified schedule for the number of attempts made (no delay before attempt 1, the delay
  \<open>min (baseDelay * backoffMultiplier ^ (k - 2)) maxDelay\<close> before each attempt \<open>k \<ge> 2\<close>);
  and when the first attempt fails with a status in [400, 500), exactly one attempt is made.
\<close>

theorem retry_schedule:
  assumes "1 \<le> maxAttempts (mergeRetryConfig cfg)" and "isValidAdapterId aid"
  shows "int (attempts (snd (callAdapter cfg tr aid inp ctx))) \<le> maxAttempts (mergeRetryConfig cfg) \<and>
         snd (callAdapter cfg tr aid inp ctx) =
           schedule (mergeRetryConfig cfg) \<lparr>adapterId = aid, input = inp, reqContext = ctx\<rparr>
             (attempts (snd (callAdapter cfg tr aid inp ctx))) \<and>
         (\<forall>err s. attemptOnce aid (tr 1 \<lparr>adapterId = aid, input = inp, reqContext = ctx\<rparr>) = Inl err
                    \<and> estatus err = Some s \<and> 400 \<le> s \<and> s < 500
                  \<longrightarrow> attempts (snd (callAdapter cfg tr aid inp ctx)) = 1)"
proof -
  let ?rc = "mergeRetryConfig cfg"
  let ?req = "\<lparr>adapterId = aid, input = inp, reqContext = ctx\<rparr>"
  obtain r evs where loop: "retryLoop ?rc tr ?req 1 None = (r, evs)"
    by (cases "retryLoop ?rc tr ?req 1 None")
  have evs: "snd (callAdapter cfg tr aid inp ctx) = evs"
    using assms(2) loop by (simp add: callAdapter_def)
  from retryLoop_events [OF _ loop] assms(1)
  have a: "1 \<le> attempts evs" and b: "evs = Fetch ?req # scheduleAt ?rc ?req 2 (attempts evs - 1)"
    and c: "int (attempts evs) \<le> maxAttempts ?rc"
    by (simp_all add: numeral_2_eq_2)
  obtain m where m: "attempts evs = Suc m"
    using a by (cases "attempts evs") auto
  have "evs = schedule ?rc ?req (attempts evs)"
    using b m by (simp add: schedule_def numeral_2_eq_2)
  moreover have "attempts evs = 1"
    if "attemptOnce aid (tr 1 ?req) = Inl err" "estatus err = Some s" "400 \<le> s" "s < 500" for err s
    using retryLoop_client_error [OF assms(1), of ?req tr err s] that loop
    by (auto simp: attempts_def)
  ultimately show ?thesis
    using c evs by blast
qed

theorem retry_schedule_witness:
  "1 \<le> maxAttempts (mergeRetryConfig \<lparr>retry = None\<rparr>) \<and> isValidAdapterId ''slack-sender'' \<and>
   attempts (snd (callAdapter \<lparr>retry = None\<rparr> downTransport ''slack-sender'' None Map.empty)) = 3 \<and>
   snd (callAdapter \<lparr>retry = None\<rparr> downTransport ''slack-sender'' None Map.empty) =
     [Fetch \<lparr>adapterId = ''slack-sender'', input = None, reqContext = Map.empty\<rparr>,
      Sleep 1000,
      Fetch \<lparr>adapterId = ''slack-sender'', input = None, reqContext = Map.empty\<rparr>,
      Sleep 2000,
      Fetch \<lparr>adapterId = ''slack-sender'', input = None, reqContext = Map.empty\<rparr>] \<and>
   schedule (mergeRetryConfig \<lparr>retry = None\<rparr>)
      \<lparr>adapterId = ''slack-sender'', input = None, reqContext = Map.empty\<rparr> 3 =
     [Fetch \<lparr>adapterId = ''slack-sender'', input = None, reqContext = Map.empty\<rparr>,
      Sleep 1000,
      Fetch \<lparr>adapterId = ''slack-sender'', input = None, reqContext = Map.empty\<rparr>,
      Sleep 2000,
      Fetch \<lparr>adapterId = ''slack-sender'', input = None, reqContext = Map.empty\<rparr>] \<and>
   attemptOnce ''slack-sender''
       (notFoundTransport 1 \<lparr>adapterId = ''slack-sender'', input = None, reqContext = Map.empty\<rparr>) =
     Inl \<lparr>message = ''Adapter slack-sender failed: Not Found'', estatus = Some 404\<rparr> \<and>
   attempts (snd (callAdapter \<lparr>retry = None\<rparr> notFoundTransport ''slack-sender'' None Map.empty)) = 1"
  using retry_schedule [of "\<lparr>retry = None\<rparr>" "''slack-sender''" downTransport None Map.empty]
    retry_schedule [of "\<lparr>retry = None\<rparr>" "''slack-sender''" notFoundTransport None Map.empty]
  by (simp add: eval_client downTransport_def notFoundTransport_def attempts_def schedule_def
      delayBefore_def numeral_3_eq_3)

section \<open>Validation and the outcome of a call\<close>

text \<open>\<open>objectAssign\<close> on explicit updates.\<close>

lemma objectAssign_empty: "objectAssign target Map.empty = target"
  by (auto simp: objectAssign_def fun_eq_iff)

lemma objectAssign_upd:
  "objectAssign target (source(k \<mapsto> v)) =
     (if k = ''__proto__'' \<and> target k = None then objectAssign target source
      else (objectAssign target source)(k \<mapsto> v))"
  by (auto simp: objectAssign_def fun_eq_iff map_add_def)

lemmas eval_assign = objectAssign_empty objectAssign_upd

lemmas eval_samples =
  eval_client invoke_def okTransport_def downTransport_def notFoundTransport_def
  observingTransport_def exampleNet_def failingNet_def blankNet_def respY_def respZ_def
  respBlank_def respProto_def protoNet_def initialContext_def runBeforeLLM_def runAfterLLM_def showOpt_def Let_def eval_assign

text \<open>
  A call throws exactly when the identifier fails \<open>isValidAdapterId\<close>, before any event;
  otherwise it returns what the retry loop returns.
\<close>

lemma callAdapter_invalid:
  "\<not> isValidAdapterId aid \<Longrightarrow>
   callAdapter cfg tr aid inp ctx = (Inl (''Invalid adapter ID: '' @ aid), [])"
  by (simp add: callAdapter_def)

lemma callAdapter_valid:
  "isValidAdapterId aid \<Longrightarrow>
   callAdapter cfg tr aid inp ctx =
     (Inr (fst (retryLoop (mergeRetryConfig cfg) tr
                  \<lparr>adapterId = aid, input = inp, reqContext = ctx\<rparr> 1 None)),
      snd (retryLoop (mergeRetryConfig cfg) tr
             \<lparr>adapterId = aid, input = inp, reqContext = ctx\<rparr> 1 None))"
  by (simp add: callAdapter_def split: prod.splits)

lemma callAdapter_raises_iff:
  "(\<exists>msg. fst (callAdapter cfg tr aid inp ctx) = Inl msg) \<longleftrightarrow> \<not> isValidAdapterId aid"
  by (cases "isValidAdapterId aid") (simp_all add: callAdapter_valid callAdapter_invalid)

text \<open>
  The value the loop returns is the parsed result of its last attempt or, when that attempt
  failed, the \<open>error\<close> response built from the error of that last attempt.
\<close>

lemma retryLoop_result:
  "1 \<le> a \<Longrightarrow> a \<le> maxAttempts rc \<Longrightarrow> retryLoop rc tr req a le = (r, evs) \<Longrightarrow>
     attemptOnce (adapterId req) (tr (a + int (attempts evs) - 1) req) = Inr r \<or>
     (\<exists>err. attemptOnce (adapterId req) (tr (a + int (attempts evs) - 1) req) = Inl err \<and>
            r = errorResponse (Some err))"
proof (induction rc tr req a le arbitrary: r evs rule: retryLoop.induct)
  case (1 rc tr req attempt lastError)
  note le = "1.prems"(2)
  show ?case
  proof (cases "attemptOnce (adapterId req) (tr attempt req)")
    case (Inr result)
    with le "1.prems"(3) show ?thesis
      by (auto simp: retryLoop.simps [of rc tr req attempt] attempts_def)
  next
    case (Inl err)
    show ?thesis
    proof (cases "shouldRetry err attempt (maxAttempts rc)")
      case False
      with le Inl "1.prems"(3) show ?thesis
        by (auto simp: retryLoop.simps [of rc tr req attempt] attempts_def)
    next
      case True
      then have lt: "attempt < maxAttempts rc"
        by (simp add: shouldRetry_def split: if_splits)
      obtain r' evs' where rec: "retryLoop rc tr req (attempt + 1) (Some err) = (r', evs')"
        by (cases "retryLoop rc tr req (attempt + 1) (Some err)")
      from "1.prems"(3) le Inl True lt rec
      have evs: "evs = Fetch req # Sleep (getRetryDelay attempt rc) # evs'" and r: "r = r'"
        by (auto simp: retryLoop.simps [of rc tr req attempt])
      have att: "attempt + int (attempts evs) - 1 = attempt + 1 + int (attempts evs') - 1"
        by (simp add: evs attempts_def)
      show ?thesis
        using "1.IH"(1) [OF le Inl _ lt _ _ rec] True "1.prems"(1) lt r
        unfolding att by simp
    qed
  qed
qed

text \<open>
  Claim C2, at the input where the code departs from it. \<open>toString\<close> is not a key of the
  registry, yet \<open>callAdapter\<close> does not throw for it: \<open>in\<close> finds the property that the
  registry object inherits, the request goes out and the caller receives a result.
\<close>

theorem callAdapter_accepts_inherited_key:
  "''toString'' \<notin> set registryKeys \<and>
   callAdapter \<lparr>retry = None\<rparr> notFoundTransport ''toString'' None Map.empty =
     (Inr \<lparr>outputTxt = None, status = StatusError, data = None,
           error = Some ''Adapter toString failed: Not Found''\<rparr>,
      [Fetch \<lparr>adapterId = ''toString'', input = None, reqContext = Map.empty\<rparr>])"
  by (simp add: eval_samples)


section \<open>Sequential chains\<close>

lemma invoke_request [simp]:
  "invRequest (invoke cfg tr aid inp ctx) = \<lparr>adapterId = aid, input = inp, reqContext = ctx\<rparr>"
  by (simp add: invoke_def split: prod.splits)

text \<open>
  The merge of the loops agrees with the plain merge on every key but \<^verbatim>\<open>__proto__\<close>.
\<close>

lemma exceptProto_eq_iff:
  "exceptProto m = exceptProto m' \<longleftrightarrow> (\<forall>key. key \<noteq> ''__proto__'' \<longrightarrow> m key = m' key)"
  by (auto simp: exceptProto_def fun_eq_iff)

lemma exceptProto_assignUpdate:
  "exceptProto c = exceptProto c' \<Longrightarrow>
   exceptProto (assignUpdate c r) = exceptProto (nextContext c' r)"
  unfolding exceptProto_eq_iff
  by (auto simp: assignUpdate_def nextContext_def objectAssign_def map_add_def
           split: option.splits)

lemma loopState_threadedState:
  "exceptProto c = exceptProto c' \<Longrightarrow>
   fst (foldl loopStep (i, c) calls) = fst (foldl threadStep (i, c') calls) \<and>
   exceptProto (snd (foldl loopStep (i, c) calls))
     = exceptProto (snd (foldl threadStep (i, c') calls))"
proof (induction calls arbitrary: i c c')
  case Nil
  then show ?case by simp
next
  case (Cons call calls)
  show ?case
  proof (cases "invOutcome call")
    case (Inl e)
    with Cons.IH [OF Cons.prems, of i] show ?thesis
      by (simp add: loopStep_def threadStep_def)
  next
    case (Inr r)
    with Cons.IH [OF exceptProto_assignUpdate [OF Cons.prems, of r], of "nextInput i r"]
    show ?thesis
      by (simp add: loopStep_def threadStep_def)
  qed
qed

lemma loopState_off_proto:
  "fst (loopState inp ctx calls) = fst (threadedState inp ctx calls) \<and>
   exceptProto (snd (loopState inp ctx calls)) = exceptProto (snd (threadedState inp ctx calls))"
  unfolding loopState_def threadedState_def
  by (rule loopState_threadedState) simp

lemma beforeLoop_Cons:
  "beforeLoop cfg net k (aid # rest) cur ctx =
     (case invOutcome (invoke cfg (net k) aid (Some cur) ctx) of
        Inl e \<Rightarrow> (Inl e, [invoke cfg (net k) aid (Some cur) ctx])
      | Inr r \<Rightarrow>
          if status r = StatusError
          then (Inl (''Adapter '' @ aid @ '' failed after retries: '' @ showOpt (error r)),
                [invoke cfg (net k) aid (Some cur) ctx])
          else (fst (beforeLoop cfg net (Suc k) rest (nextInput cur r) (assignUpdate ctx r)),
                invoke cfg (net k) aid (Some cur) ctx
                  # snd (beforeLoop cfg net (Suc k) rest (nextInput cur r) (assignUpdate ctx r))))"
  by (simp add: Let_def nextInput_def assignUpdate_def split: sum.splits prod.splits option.splits)

lemma beforeLoop_length: "length (snd (beforeLoop cfg net k ids cur ctx)) \<le> length ids"
proof (induction ids arbitrary: k cur ctx)
  case Nil
  show ?case by simp
next
  case (Cons aid rest)
  show ?case
    unfolding beforeLoop_Cons using Cons.IH
    by (simp split: sum.splits)
qed

lemma beforeLoop_success_length:
  "fst (beforeLoop cfg net k ids cur ctx) = Inr res \<Longrightarrow>
   length (snd (beforeLoop cfg net k ids cur ctx)) = length ids"
proof (induction ids arbitrary: k cur ctx)
  case Nil
  show ?case by simp
next
  case (Cons aid rest)
  from Cons.prems show ?case
    unfolding beforeLoop_Cons using Cons.IH
    by (auto split: sum.splits if_splits)
qed

lemma beforeLoop_requests:
  "i < length (snd (beforeLoop cfg net k ids cur ctx)) \<Longrightarrow>
   invRequest (snd (beforeLoop cfg net k ids cur ctx) ! i) =
     \<lparr>adapterId = ids ! i,
      input = Some (fst (loopState cur ctx (take i (snd (beforeLoop cfg net k ids cur ctx))))),
      reqContext = snd (loopState cur ctx (take i (snd (beforeLoop cfg net k ids cur ctx))))\<rparr>"
proof (induction ids arbitrary: k cur ctx i)
  case Nil
  then show ?case by simp
next
  case (Cons aid rest)
  let ?call = "invoke cfg (net k) aid (Some cur) ctx"
  show ?case
  proof (cases i)
    case 0
    then show ?thesis
      by (auto simp: Let_def loopState_def split: sum.splits prod.splits)
  next
    case (Suc j)
    show ?thesis
    proof (cases "invOutcome ?call")
      case (Inl e)
      with Cons.prems Suc show ?thesis by (simp add: Let_def)
    next
      case (Inr r)
      show ?thesis
      proof (cases "status r = StatusError")
        case True
        with Inr Cons.prems Suc show ?thesis by (simp add: Let_def)
      next
        case False
        let ?rec = "beforeLoop cfg net (Suc k) rest (nextInput cur r) (assignUpdate ctx r)"
        have unfold: "snd (beforeLoop cfg net k (aid # rest) cur ctx) = ?call # snd ?rec"
          using Inr False
          by (simp add: Let_def nextInput_def assignUpdate_def split: prod.splits option.splits)
        have j: "j < length (snd ?rec)"
          using Cons.prems Suc unfold by simp
        have step: "loopStep (cur, ctx) ?call = (nextInput cur r, assignUpdate ctx r)"
          using Inr by (simp add: loopStep_def)
        show ?thesis
          using Cons.IH [OF j] unfold Suc step by (simp add: loopState_def)
      qed
    qed
  qed
qed

lemma beforeLoop_result:
  "fst (beforeLoop cfg net k ids cur ctx) = Inr res \<Longrightarrow>
   res = loopState cur ctx (snd (beforeLoop cfg net k ids cur ctx))"
proof (induction ids arbitrary: k cur ctx)
  case Nil
  then show ?case by (simp add: loopState_def)
next
  case (Cons aid rest)
  let ?call = "invoke cfg (net k) aid (Some cur) ctx"
  from Cons.prems obtain r where Inr: "invOutcome ?call = Inr r" and ok: "status r \<noteq> StatusError"
    by (auto simp: Let_def split: sum.splits if_splits)
  let ?rec = "beforeLoop cfg net (Suc k) rest (nextInput cur r) (assignUpdate ctx r)"
  have unfold: "beforeLoop cfg net k (aid # rest) cur ctx = (fst ?rec, ?call # snd ?rec)"
    using Inr ok
    by (simp add: Let_def nextInput_def assignUpdate_def split: prod.splits option.splits)
  have step: "loopStep (cur, ctx) ?call = (nextInput cur r, assignUpdate ctx r)"
    using Inr by (simp add: loopStep_def)
  show ?case
    using Cons.IH [of "Suc k" "nextInput cur r" "assignUpdate ctx r"] Cons.prems unfold step
    by (simp add: loopState_def)
qed

lemma beforeLoop_append:
  "fst (beforeLoop cfg net k pre cur ctx) = Inr (cur', ctx') \<Longrightarrow>
   beforeLoop cfg net k (pre @ rest) cur ctx =
     (fst (beforeLoop cfg net (k + length pre) rest cur' ctx'),
      snd (beforeLoop cfg net k pre cur ctx) @ snd (beforeLoop cfg net (k + length pre) rest cur' ctx'))"
proof (induction pre arbitrary: k cur ctx)
  case Nil
  then show ?case by simp
next
  case (Cons aid pre)
  from Cons.prems obtain r where Inr: "invOutcome (invoke cfg (net k) aid (Some cur) ctx) = Inr r"
    and ok: "status r \<noteq> StatusError"
    and rec: "fst (beforeLoop cfg net (Suc k) pre (nextInput cur r) (assignUpdate ctx r)) = Inr (cur', ctx')"
    unfolding beforeLoop_Cons by (auto split: sum.splits if_splits)
  show ?case
    using Cons.IH [OF rec] Inr ok
    by (simp only: append_Cons beforeLoop_Cons) simp
qed

lemma beforeLoop_success_ids:
  "fst (beforeLoop cfg net k ids cur ctx) = Inr res \<Longrightarrow>
   map (adapterId \<circ> invRequest) (snd (beforeLoop cfg net k ids cur ctx)) = ids"
proof (induction ids arbitrary: k cur ctx)
  case Nil
  show ?case by simp
next
  case (Cons aid rest)
  from Cons.prems show ?case
    unfolding beforeLoop_Cons using Cons.IH
    by (auto split: sum.splits if_splits)
qed

text \<open>
  Claim C5. When every adapter before \<open>aid\<close> has succeeded and the invocation of \<open>aid\<close>
  returns an \<open>error\<close> result, \<open>runBeforeLLM\<close> throws the error that names \<open>aid\<close> and
  carries its error message; the invocations made are those of the adapters before \<open>aid\<close>
  and of \<open>aid\<close> itself, so no adapter after it is invoked, whatever follows in the list;
  and what the caller gets is the exception, never a prompt or a context.
\<close>

theorem runBeforeLLM_aborts_on_first_error:
  assumes "fst (runBeforeLLM cfg net inp pre ctx) = Inr (cur, uctx)"
    and "invOutcome (invoke cfg (net (length pre)) aid (Some cur) uctx) = Inr r"
    and "status r = StatusError"
  shows "runBeforeLLM cfg net inp (pre @ aid # rest) ctx =
           (Inl (''Adapter '' @ aid @ '' failed after retries: '' @ showOpt (error r)),
            snd (runBeforeLLM cfg net inp pre ctx)
              @ [invoke cfg (net (length pre)) aid (Some cur) uctx]) \<and>
         map (adapterId \<circ> invRequest) (snd (runBeforeLLM cfg net inp (pre @ aid # rest) ctx))
           = pre @ [aid]"
proof -
  have pre: "fst (beforeLoop cfg net 0 pre inp ctx) = Inr (cur, uctx)"
    using assms(1) by (simp add: runBeforeLLM_def)
  have last: "beforeLoop cfg net (length pre) (aid # rest) cur uctx =
      (Inl (''Adapter '' @ aid @ '' failed after retries: '' @ showOpt (error r)),
       [invoke cfg (net (length pre)) aid (Some cur) uctx])"
    using assms(2,3) by (simp only: beforeLoop_Cons) simp
  have run: "runBeforeLLM cfg net inp (pre @ aid # rest) ctx =
           (Inl (''Adapter '' @ aid @ '' failed after retries: '' @ showOpt (error r)),
            snd (runBeforeLLM cfg net inp pre ctx)
              @ [invoke cfg (net (length pre)) aid (Some cur) uctx])"
    using beforeLoop_append [OF pre, of "aid # rest"] last
    by (simp add: runBeforeLLM_def)
  show ?thesis
    using run beforeLoop_success_ids [OF pre]
    by (simp add: runBeforeLLM_def)
qed

theorem runBeforeLLM_aborts_on_first_error_witness:
  "fst (runBeforeLLM \<lparr>retry = None\<rparr> failingNet ''x'' [''pdf-text-extractor''] initialContext)
     = Inr (''y'', initialContext(''foo'' \<mapsto> JNum 1)) \<and>
   fst (runBeforeLLM \<lparr>retry = None\<rparr> failingNet ''x''
          [''pdf-text-extractor'', ''persona-legal'', ''vector-search-legal''] initialContext)
     = Inl ''Adapter persona-legal failed after retries: socket hang up'' \<and>
   map (adapterId \<circ> invRequest)
     (snd (runBeforeLLM \<lparr>retry = None\<rparr> failingNet ''x''
             [''pdf-text-extractor'', ''persona-legal'', ''vector-search-legal''] initialContext))
     = [''pdf-text-extractor'', ''persona-legal'']"
  using runBeforeLLM_aborts_on_first_error
    [of "\<lparr>retry = None\<rparr>" failingNet "''x''" "[''pdf-text-extractor'']" initialContext
        "''y''" "initialContext(''foo'' \<mapsto> JNum 1)" "''persona-legal''"
        "errorResponse (Some \<lparr>message = ''socket hang up'', estatus = None\<rparr>)"
        "[''vector-search-legal'']"]
  by (simp add: eval_samples)

text \<open>
  Claim C4, amended. When \<open>runBeforeLLM\<close> returns, every adapter of the list was invoked
  once, in order; adapter \<open>i\<close> was sent the input obtained by threading the responses of the
  adapters before it through \<open>nextInput\<close> (an output that is present and not the empty
  string replaces the input, any other response leaves it) and a context that agrees, on
  every key other than \<^verbatim>\<open>__proto__\<close>, with the initial context into which the update of each
  of these responses was merged; and the pair returned is the input and, on every key other
  than \<^verbatim>\<open>__proto__\<close>, the context threaded through all responses. The witness is the example
  of the specification, with two registry identifiers standing for A and B.
\<close>

theorem runBeforeLLM_threads:
  assumes "fst (runBeforeLLM cfg net inp ids ctx) = Inr (p, c)"
  shows "length (snd (runBeforeLLM cfg net inp ids ctx)) = length ids \<and>
         (\<forall>i < length ids.
            adapterId (invRequest (snd (runBeforeLLM cfg net inp ids ctx) ! i)) = ids ! i \<and>
            input (invRequest (snd (runBeforeLLM cfg net inp ids ctx) ! i))
              = Some (fst (threadedState inp ctx (take i (snd (runBeforeLLM cfg net inp ids ctx))))) \<and>
            exceptProto (reqContext (invRequest (snd (runBeforeLLM cfg net inp ids ctx) ! i)))
              = exceptProto
                  (snd (threadedState inp ctx (take i (snd (runBeforeLLM cfg net inp ids ctx)))))) \<and>
         p = fst (threadedState inp ctx (snd (runBeforeLLM cfg net inp ids ctx))) \<and>
         exceptProto c
           = exceptProto (snd (threadedState inp ctx (snd (runBeforeLLM cfg net inp ids ctx))))"
proof -
  let ?calls = "snd (beforeLoop cfg net 0 ids inp ctx)"
  have ok: "fst (beforeLoop cfg net 0 ids inp ctx) = Inr (p, c)"
    using assms by (simp add: runBeforeLLM_def)
  have len: "length ?calls = length ids"
    by (rule beforeLoop_success_length [OF ok])
  have req: "adapterId (invRequest (?calls ! i)) = ids ! i \<and>
             input (invRequest (?calls ! i)) = Some (fst (threadedState inp ctx (take i ?calls))) \<and>
             exceptProto (reqContext (invRequest (?calls ! i)))
               = exceptProto (snd (threadedState inp ctx (take i ?calls)))"
    if "i < length ids" for i
  proof -
    have "i < length ?calls" using that len by simp
    from beforeLoop_requests [OF this] loopState_off_proto [of inp ctx "take i ?calls"]
    show ?thesis by simp
  qed
  have res: "p = fst (threadedState inp ctx ?calls) \<and>
             exceptProto c = exceptProto (snd (threadedState inp ctx ?calls))"
    using beforeLoop_result [OF ok] loopState_off_proto [of inp ctx ?calls]
    by (metis fst_conv snd_conv)
  show ?thesis
    unfolding runBeforeLLM_def using len req res by blast
qed

theorem runBeforeLLM_threads_witness:
  "fst (runBeforeLLM \<lparr>retry = None\<rparr> exampleNet ''x'' [''pdf-text-extractor'', ''persona-legal'']
          initialContext)
     = Inr (''z'', initialContext(''foo'' \<mapsto> JNum 1)) \<and>
   invRequest (snd (runBeforeLLM \<lparr>retry = None\<rparr> exampleNet ''x''
                      [''pdf-text-extractor'', ''persona-legal''] initialContext) ! 1)
     = \<lparr>adapterId = ''persona-legal'', input = Some ''y'',
        reqContext = initialContext(''foo'' \<mapsto> JNum 1)\<rparr> \<and>
   threadedState ''x'' initialContext
       (snd (runBeforeLLM \<lparr>retry = None\<rparr> exampleNet ''x''
               [''pdf-text-extractor'', ''persona-legal''] initialContext))
     = (''z'', initialContext(''foo'' \<mapsto> JNum 1))"
proof -
  let ?run = "runBeforeLLM \<lparr>retry = None\<rparr> exampleNet ''x''
                [''pdf-text-extractor'', ''persona-legal''] initialContext"
  have code: "fst ?run = Inr (''z'', initialContext(''foo'' \<mapsto> JNum 1))"
    "invRequest (snd ?run ! 1)
       = \<lparr>adapterId = ''persona-legal'', input = Some ''y'',
          reqContext = initialContext(''foo'' \<mapsto> JNum 1)\<rparr>"
    by (simp_all add: eval_samples eval_assign)
  have threaded: "exceptProto (snd (threadedState ''x'' initialContext (snd ?run)))
      = exceptProto (initialContext(''foo'' \<mapsto> JNum 1))"
    "fst (threadedState ''x'' initialContext (snd ?run)) = ''z''"
    using runBeforeLLM_threads [OF code(1)] by simp_all
  have "snd (threadedState ''x'' initialContext (snd ?run)) ''__proto__''
      = (initialContext(''foo'' \<mapsto> JNum 1)) ''__proto__''"
    by (simp add: eval_samples eval_assign threadedState_def threadStep_def nextInput_def
        nextContext_def)
  with threaded(1) have "snd (threadedState ''x'' initialContext (snd ?run))
      = initialContext(''foo'' \<mapsto> JNum 1)"
    unfolding exceptProto_eq_iff by (intro ext) metis
  with threaded(2) have "threadedState ''x'' initialContext (snd ?run)
      = (''z'', initialContext(''foo'' \<mapsto> JNum 1))"
    by (metis prod.collapse)
  with code show ?thesis
    by simp
qed

text \<open>
  Claim C4 as stated fails twice. An output that is present but is the empty string does
  not become the input of the next adapter. And an update that holds the key \<^verbatim>\<open>__proto__\<close>
  is not merged on that key: the context sent to the next adapter and the context returned
  do not hold it, while the initial context with the update merged in does.
\<close>

theorem runBeforeLLM_threads_counterexample:
  "invOutcome (snd (runBeforeLLM \<lparr>retry = None\<rparr> blankNet ''x''
                      [''pdf-text-extractor'', ''persona-legal''] initialContext) ! 0)
     = Inr \<lparr>outputTxt = Some [], status = StatusOk, data = None, error = None\<rparr> \<and>
   input (invRequest (snd (runBeforeLLM \<lparr>retry = None\<rparr> blankNet ''x''
                      [''pdf-text-extractor'', ''persona-legal''] initialContext) ! 1))
     = Some ''x'' \<and>
   input (invRequest (snd (runBeforeLLM \<lparr>retry = None\<rparr> blankNet ''x''
                      [''pdf-text-extractor'', ''persona-legal''] initialContext) ! 1))
     \<noteq> Some [] \<and>
   invOutcome (snd (runBeforeLLM \<lparr>retry = None\<rparr> protoNet ''x''
                      [''pdf-text-extractor'', ''persona-legal''] initialContext) ! 0)
     = Inr \<lparr>outputTxt = None, status = StatusOk,
            data = Some [''__proto__'' \<mapsto> JNum 1, ''a'' \<mapsto> JNum 2], error = None\<rparr> \<and>
   reqContext (invRequest (snd (runBeforeLLM \<lparr>retry = None\<rparr> protoNet ''x''
                      [''pdf-text-extractor'', ''persona-legal''] initialContext) ! 1))
     = initialContext(''a'' \<mapsto> JNum 2) \<and>
   fst (runBeforeLLM \<lparr>retry = None\<rparr> protoNet ''x''
          [''pdf-text-extractor'', ''persona-legal''] initialContext)
     = Inr (''z'', initialContext(''a'' \<mapsto> JNum 2)) \<and>
   (initialContext(''a'' \<mapsto> JNum 2)) ''__proto__'' = None \<and>
   (initialContext ++ [''__proto__'' \<mapsto> JNum 1, ''a'' \<mapsto> JNum 2]) ''__proto__''
     = Some (JNum 1)"
  by (simp add: eval_samples eval_assign)

lemma nextInput_nonempty: "prev \<noteq> [] \<Longrightarrow> nextInput prev r \<noteq> []"
  by (simp add: nextInput_def split: option.splits)

lemma loopState_nonempty: "inp \<noteq> [] \<Longrightarrow> fst (loopState inp ctx calls) \<noteq> []"
  unfolding loopState_def
proof (induction calls arbitrary: inp ctx)
  case Nil
  then show ?case by simp
next
  case (Cons c calls)
  show ?case
  proof (cases "invOutcome c")
    case (Inl e)
    with Cons show ?thesis by (simp add: loopStep_def)
  next
    case (Inr r)
    with Cons.IH [OF nextInput_nonempty [OF Cons.prems], of r "assignUpdate ctx r"]
    show ?thesis by (simp add: loopStep_def)
  qed
qed

lemma loopState_snoc:
  "loopState inp ctx (calls @ [c]) = loopStep (loopState inp ctx calls) c"
  by (simp add: loopState_def)

text \<open>
  Claim C10. In any run of \<open>runBeforeLLM\<close>, when an invocation returns a result whose output
  is the empty string, the next adapter is sent the same input as this one, exactly as
  when the output is absent. Hence, when the initial input is not empty, no adapter is ever
  sent an empty input and the prompt returned is not empty.
\<close>

theorem empty_output_carried_forward:
  "(\<forall>i r. Suc i < length (snd (runBeforeLLM cfg net inp ids ctx))
           \<and> invOutcome (snd (runBeforeLLM cfg net inp ids ctx) ! i) = Inr r
           \<and> (outputTxt r = Some [] \<or> outputTxt r = None)
         \<longrightarrow> input (invRequest (snd (runBeforeLLM cfg net inp ids ctx) ! Suc i))
               = input (invRequest (snd (runBeforeLLM cfg net inp ids ctx) ! i))) \<and>
   (inp \<noteq> [] \<longrightarrow>
      (\<forall>i < length (snd (runBeforeLLM cfg net inp ids ctx)).
          input (invRequest (snd (runBeforeLLM cfg net inp ids ctx) ! i)) \<noteq> Some []) \<and>
      (\<forall>p c. fst (runBeforeLLM cfg net inp ids ctx) = Inr (p, c) \<longrightarrow> p \<noteq> []))"
proof -
  let ?calls = "snd (beforeLoop cfg net 0 ids inp ctx)"
  have req: "input (invRequest (?calls ! i)) = Some (fst (loopState inp ctx (take i ?calls)))"
    if "i < length ?calls" for i
    using beforeLoop_requests [OF that] by simp
  have carried: "input (invRequest (?calls ! Suc i)) = input (invRequest (?calls ! i))"
    if "Suc i < length ?calls" "invOutcome (?calls ! i) = Inr r"
       "outputTxt r = Some [] \<or> outputTxt r = None" for i r
  proof -
    have i: "i < length ?calls" using that(1) by simp
    have "take (Suc i) ?calls = take i ?calls @ [?calls ! i]"
      using i by (simp add: take_Suc_conv_app_nth)
    then have "fst (loopState inp ctx (take (Suc i) ?calls))
                 = nextInput (fst (loopState inp ctx (take i ?calls))) r"
      using that(2) by (simp add: loopState_snoc loopStep_def)
    also have "\<dots> = fst (loopState inp ctx (take i ?calls))"
      using that(3) by (auto simp: nextInput_def)
    finally show ?thesis
      using req [OF that(1)] req [OF i] by simp
  qed
  have nonempty: "input (invRequest (?calls ! i)) \<noteq> Some []"
    if "inp \<noteq> []" "i < length ?calls" for i
    using req [OF that(2)] loopState_nonempty [OF that(1)] by simp
  have result: "p \<noteq> []"
    if "inp \<noteq> []" "fst (beforeLoop cfg net 0 ids inp ctx) = Inr (p, c)" for p c
    using beforeLoop_result [OF that(2)] loopState_nonempty [OF that(1), of ctx ?calls]
    by (metis fst_conv)
  show ?thesis
    unfolding runBeforeLLM_def
    using carried nonempty result by blast
qed

theorem empty_output_carried_forward_witness:
  "Suc 0 < length (snd (runBeforeLLM \<lparr>retry = None\<rparr> blankNet ''x''
                         [''pdf-text-extractor'', ''persona-legal''] initialContext)) \<and>
   invOutcome (snd (runBeforeLLM \<lparr>retry = None\<rparr> blankNet ''x''
                      [''pdf-text-extractor'', ''persona-legal''] initialContext) ! 0)
     = Inr respBlank \<and>
   outputTxt respBlank = Some [] \<and>
   input (invRequest (snd (runBeforeLLM \<lparr>retry = None\<rparr> blankNet ''x''
                      [''pdf-text-extractor'', ''persona-legal''] initialContext) ! Suc 0))
     = Some ''x'' \<and>
   fst (runBeforeLLM \<lparr>retry = None\<rparr> blankNet ''x''
          [''pdf-text-extractor'', ''persona-legal''] initialContext)
     = Inr (''z'', initialContext)"
  using empty_output_carried_forward
    [of "\<lparr>retry = None\<rparr>" blankNet "''x''" "[''pdf-text-extractor'', ''persona-legal'']"
        initialContext]
  by (simp add: eval_samples)

lemma afterLoop_Cons:
  "afterLoop cfg net k (aid # rest) ctx =
     (case invOutcome (invoke cfg (net k) aid None ctx) of
        Inl e \<Rightarrow> (Inl e, [invoke cfg (net k) aid None ctx])
      | Inr r \<Rightarrow>
          if status r = StatusError
          then (Inl (''Post-LLM adapter '' @ aid @ '' failed after retries: ''
                       @ showOpt (error r)),
                [invoke cfg (net k) aid None ctx])
          else (fst (afterLoop cfg net (Suc k) rest ctx),
                invoke cfg (net k) aid None ctx # snd (afterLoop cfg net (Suc k) rest ctx)))"
  by (simp add: Let_def split: sum.splits prod.splits)

lemma afterLoop_requests:
  "map invRequest (snd (afterLoop cfg net k ids ctx)) =
     map (\<lambda>aid. \<lparr>adapterId = aid, input = None, reqContext = ctx\<rparr>)
       (take (length (snd (afterLoop cfg net k ids ctx))) ids)"
proof (induction ids arbitrary: k)
  case Nil
  show ?case by simp
next
  case (Cons aid rest)
  show ?case
    unfolding afterLoop_Cons using Cons.IH [of "Suc k"]
    by (simp split: sum.splits)
qed

text \<open>
  Claim C1, amended. \<open>runAfterLLM\<close> sends every adapter it invokes a null input and
  exactly the context its caller passed: the invocations made are those of a prefix of the
  list, each with that same context. No context update returned in the chain reaches a
  later adapter.
\<close>

theorem runAfterLLM_context_fixed:
  "map invRequest (snd (runAfterLLM cfg net ctx ids)) =
     map (\<lambda>aid. \<lparr>adapterId = aid, input = None, reqContext = ctx\<rparr>)
       (take (length (snd (runAfterLLM cfg net ctx ids))) ids)"
  unfolding runAfterLLM_def by (rule afterLoop_requests)

text \<open>
  Claim C1 as stated fails: the first adapter returns the update \<open>foo = 1\<close>, and the
  context sent to the second adapter has no \<open>foo\<close>.
\<close>

theorem runAfterLLM_update_not_visible:
  "invOutcome (snd (runAfterLLM \<lparr>retry = None\<rparr> exampleNet initialContext
                      [''slack-sender'', ''db-logger'']) ! 0)
     = Inr \<lparr>outputTxt = Some ''y'', status = StatusOk, data = Some [''foo'' \<mapsto> JNum 1],
            error = None\<rparr> \<and>
   adapterId (invRequest (snd (runAfterLLM \<lparr>retry = None\<rparr> exampleNet initialContext
                      [''slack-sender'', ''db-logger'']) ! 1)) = ''db-logger'' \<and>
   reqContext (invRequest (snd (runAfterLLM \<lparr>retry = None\<rparr> exampleNet initialContext
                      [''slack-sender'', ''db-logger'']) ! 1)) ''foo'' = None"
  by (simp add: eval_samples)


section \<open>Parallel fan-out\<close>








lemma firstRejection_returned [simp]: "firstRejection (map Inr rs :: (string + 'a) list) = None"
  by (induction rs) simp_all









section \<open>Health checks\<close>

text \<open>
  Claim C7. \<open>checkAdapterHealth\<close> is total: for every identifier it yields a record,
  whose latency is the difference of the two clock readings around the probe. The probe
  is classified by exactly one of four cases: the invocation threw, and the record is
  \<open>unhealthy\<close> with the thrown message; it returned an \<open>error\<close> result, and the record is
  \<open>unhealthy\<close> with the error of that result; it succeeded with a latency above 1000, and
  the record is \<open>degraded\<close>; it succeeded with a latency of at most 1000, and the record is
  \<open>healthy\<close>.
\<close>

theorem checkAdapterHealth_classifies:
  "snd (snd (checkAdapterHealth cfg clock n tr aid)) = invoke cfg tr aid None probeContext \<and>
   latency (fst (checkAdapterHealth cfg clock n tr aid)) = clock (n + 1) - clock n \<and>
   ((\<exists>e. invOutcome (invoke cfg tr aid None probeContext) = Inl e
         \<and> hstatus (fst (checkAdapterHealth cfg clock n tr aid)) = unhealthy
         \<and> hmessage (fst (checkAdapterHealth cfg clock n tr aid)) = Some e) \<or>
    (\<exists>r. invOutcome (invoke cfg tr aid None probeContext) = Inr r \<and> status r = StatusError
         \<and> hstatus (fst (checkAdapterHealth cfg clock n tr aid)) = unhealthy
         \<and> hmessage (fst (checkAdapterHealth cfg clock n tr aid)) = error r) \<or>
    (\<exists>r. invOutcome (invoke cfg tr aid None probeContext) = Inr r \<and> status r = StatusOk
         \<and> latency (fst (checkAdapterHealth cfg clock n tr aid)) > 1000
         \<and> hstatus (fst (checkAdapterHealth cfg clock n tr aid)) = degraded) \<or>
    (\<exists>r. invOutcome (invoke cfg tr aid None probeContext) = Inr r \<and> status r = StatusOk
         \<and> latency (fst (checkAdapterHealth cfg clock n tr aid)) \<le> 1000
         \<and> hstatus (fst (checkAdapterHealth cfg clock n tr aid)) = healthy))"
proof (cases "invOutcome (invoke cfg tr aid None probeContext)")
  case (Inl e)
  then show ?thesis
    by (simp add: checkAdapterHealth_def probeContext_def Let_def)
next
  case (Inr r)
  then show ?thesis
    by (cases "status r")
       (simp_all add: checkAdapterHealth_def probeContext_def Let_def)
qed

lemmas eval_health =
  checkSystemHealth_def checkAdapterHealth_def slowFirstClock_def healthyNet_def
  recordedStatuses_def worstOf_def newHealthManager_def

lemma checkAdapterHealth_readings:
  "fst (snd (checkAdapterHealth cfg clock n tr aid)) = n + 3"
  by (simp add: checkAdapterHealth_def Let_def split: sum.splits)

lemma checkAdapterHealth_call:
  "snd (snd (checkAdapterHealth cfg clock n tr aid)) =
     invoke cfg tr aid None [''healthCheck'' \<mapsto> JBool True]"
  by (simp add: checkAdapterHealth_def Let_def split: sum.splits)

lemma checkLoop_Cons:
  "checkLoop cfg clock net k (aid # rest) vars =
     (fst (checkLoop cfg clock net (Suc k) rest
             (afterProbe vars aid (fst (checkAdapterHealth cfg clock (cvReadings vars) (net k) aid)))),
      invoke cfg (net k) aid None [''healthCheck'' \<mapsto> JBool True]
        # snd (checkLoop cfg clock net (Suc k) rest
             (afterProbe vars aid (fst (checkAdapterHealth cfg clock (cvReadings vars) (net k) aid)))))"
proof -
  obtain h n' c where probe: "checkAdapterHealth cfg clock (cvReadings vars) (net k) aid = (h, n', c)"
    by (cases "checkAdapterHealth cfg clock (cvReadings vars) (net k) aid")
  have n': "n' = cvReadings vars + 3"
    using checkAdapterHealth_readings [of cfg clock "cvReadings vars" "net k" aid] probe by simp
  have c: "c = invoke cfg (net k) aid None [''healthCheck'' \<mapsto> JBool True]"
    using checkAdapterHealth_call [of cfg clock "cvReadings vars" "net k" aid] probe by simp
  obtain final calls where rec: "checkLoop cfg clock net (Suc k) rest (afterProbe vars aid h) = (final, calls)"
    by (cases "checkLoop cfg clock net (Suc k) rest (afterProbe vars aid h)")
  have "checkLoop cfg clock net k (aid # rest) vars = (final, c # calls)"
    using probe rec n' by (simp add: afterProbe_def Let_def)
  then show ?thesis
    using probe rec c by simp
qed

lemma checkLoop_fst_Cons:
  "fst (checkLoop cfg clock net k (aid # rest) vars) =
     fst (checkLoop cfg clock net (Suc k) rest
            (afterProbe vars aid (fst (checkAdapterHealth cfg clock (cvReadings vars) (net k) aid))))"
  by (simp only: checkLoop_Cons fst_conv)

lemma checkLoop_calls:
  "map (adapterId \<circ> invRequest) (snd (checkLoop cfg clock net k ids vars)) = ids"
proof (induction ids arbitrary: k vars)
  case Nil
  show ?case by simp
next
  case (Cons aid rest)
  show ?case
    unfolding checkLoop_Cons using Cons.IH by simp
qed

lemma checkLoop_readings:
  "cvReadings (fst (checkLoop cfg clock net k ids vars)) = cvReadings vars + 3 * length ids"
proof (induction ids arbitrary: k vars)
  case Nil
  show ?case by simp
next
  case (Cons aid rest)
  show ?case
    unfolding checkLoop_Cons using Cons.IH by (simp add: afterProbe_def)
qed

lemma checkLoop_untouched:
  "aid \<notin> set ids \<Longrightarrow>
   cvAdapters (fst (checkLoop cfg clock net k ids vars)) aid = cvAdapters vars aid \<and>
   cvHealthState (fst (checkLoop cfg clock net k ids vars)) aid = cvHealthState vars aid"
proof (induction ids arbitrary: k vars)
  case Nil
  show ?case by simp
next
  case (Cons a rest)
  then show ?case
    unfolding checkLoop_Cons by (simp add: afterProbe_def)
qed

lemma checkLoop_records:
  "distinct ids \<Longrightarrow> j < length ids \<Longrightarrow>
   cvAdapters (fst (checkLoop cfg clock net k ids vars)) (ids ! j)
     = Some (probes cfg clock net k (cvReadings vars) ids ! j) \<and>
   cvHealthState (fst (checkLoop cfg clock net k ids vars)) (ids ! j)
     = Some (probes cfg clock net k (cvReadings vars) ids ! j)"
proof (induction ids arbitrary: k vars j)
  case Nil
  then show ?case by simp
next
  case (Cons a rest)
  let ?h = "fst (checkAdapterHealth cfg clock (cvReadings vars) (net k) a)"
  show ?case
  proof (cases j)
    case 0
    have "a \<notin> set rest" using Cons.prems(1) by simp
    from checkLoop_untouched [OF this, of cfg clock net "Suc k" "afterProbe vars a ?h"] 0
    show ?thesis
      unfolding checkLoop_Cons by (simp add: afterProbe_def)
  next
    case (Suc i)
    have "distinct rest" "i < length rest"
      using Cons.prems Suc by simp_all
    from Cons.IH [OF this, of "Suc k" "afterProbe vars a ?h"] Suc
    show ?thesis
      unfolding checkLoop_Cons by (simp add: afterProbe_def)
  qed
qed

lemma probes_length [simp]: "length (probes cfg clock net k n ids) = length ids"
  by (induction ids arbitrary: k n) simp_all

lemma probes_nth:
  "j < length ids \<Longrightarrow>
   probes cfg clock net k n ids ! j
     = fst (checkAdapterHealth cfg clock (n + 3 * j) (net (k + j)) (ids ! j))"
proof (induction ids arbitrary: k n j)
  case Nil
  then show ?case by simp
next
  case (Cons a rest)
  show ?case
  proof (cases j)
    case 0
    then show ?thesis by simp
  next
    case (Suc i)
    with Cons.prems have "i < length rest" by simp
    from Cons.IH [OF this, of "Suc k" "n + 3"] Suc show ?thesis
      by (simp add: algebra_simps)
  qed
qed

lemma checkLoop_overall:
  "cvOverall (fst (checkLoop cfg clock net k ids vars)) =
     (let sts = map hstatus (probes cfg clock net k (cvReadings vars) ids)
      in if unhealthy \<in> set sts then unhealthy
         else if degraded \<in> set sts \<and> cvOverall vars = healthy then degraded
         else cvOverall vars)"
proof (induction ids arbitrary: k vars)
  case Nil
  show ?case by simp
next
  case (Cons a rest)
  let ?h = "fst (checkAdapterHealth cfg clock (cvReadings vars) (net k) a)"
  have r: "cvReadings (afterProbe vars a ?h) = cvReadings vars + 3"
    by (simp add: afterProbe_def)
  show ?case
    unfolding checkLoop_Cons
    using Cons.IH [of "Suc k" "afterProbe vars a ?h"]
    by (cases "hstatus ?h"; cases "cvOverall vars")
       (auto simp: r Let_def afterProbe_def)
qed

lemma recordedStatuses_records:
  assumes "length hs = length ids" and "\<forall>j < length ids. m (ids ! j) = Some (hs ! j)"
  shows "recordedStatuses m ids = map hstatus hs"
proof -
  have "map (\<lambda>aid. case m aid of Some h \<Rightarrow> [hstatus h] | None \<Rightarrow> []) ids
          = map (\<lambda>h. [hstatus h]) hs"
    using assms by (intro nth_equalityI) simp_all
  then show ?thesis
    by (simp add: recordedStatuses_def concat_map_singleton)
qed

lemma initAdapters_readings: "snd (initAdapters clock n ids acc) = n + length ids"
  by (induction ids arbitrary: n acc) simp_all

lemma registryKeys_distinct: "distinct registryKeys"
  by (simp add: registryKeys_def adapterRegistry_def)

lemma checkSystemHealth_fst:
  "fst (checkSystemHealth cfg clock net n hm) =
     \<lparr>sstatus = cvOverall (fst (checkLoop cfg clock net 0 registryKeys
                  \<lparr>cvReadings = snd (initAdapters clock n registryKeys Map.empty),
                   cvAdapters = fst (initAdapters clock n registryKeys Map.empty),
                   cvHealthState = healthState hm, cvOverall = healthy\<rparr>)),
      adapters = cvAdapters (fst (checkLoop cfg clock net 0 registryKeys
                  \<lparr>cvReadings = snd (initAdapters clock n registryKeys Map.empty),
                   cvAdapters = fst (initAdapters clock n registryKeys Map.empty),
                   cvHealthState = healthState hm, cvOverall = healthy\<rparr>)),
      timestamp = clock (cvReadings (fst (checkLoop cfg clock net 0 registryKeys
                  \<lparr>cvReadings = snd (initAdapters clock n registryKeys Map.empty),
                   cvAdapters = fst (initAdapters clock n registryKeys Map.empty),
                   cvHealthState = healthState hm, cvOverall = healthy\<rparr>)))\<rparr>"
  by (simp add: checkSystemHealth_def Let_def split: prod.splits)

text \<open>
  Claim C8. \<open>checkSystemHealth\<close> probes the identifiers of the registry, each once and in
  order; the snapshot and the manager's state afterwards hold, for every identifier of the
  registry, the record that its probe produced; and the status of the snapshot is the
  worst case over the recorded statuses: \<open>unhealthy\<close> if any is, else \<open>degraded\<close> if any
  is, else \<open>healthy\<close>. In the witness one probe takes 1500 time units, no probe errs, and
  the system is \<open>degraded\<close>.
\<close>

theorem checkSystemHealth_worst_case:
  "map (adapterId \<circ> invRequest) (snd (snd (snd (checkSystemHealth cfg clock net n hm))))
     = registryKeys \<and>
   (\<forall>j < length registryKeys.
      adapters (fst (checkSystemHealth cfg clock net n hm)) (registryKeys ! j)
        = Some (fst (checkAdapterHealth cfg clock (n + length registryKeys + 3 * j) (net j)
                       (registryKeys ! j))) \<and>
      healthState (fst (snd (checkSystemHealth cfg clock net n hm))) (registryKeys ! j)
        = adapters (fst (checkSystemHealth cfg clock net n hm)) (registryKeys ! j)) \<and>
   sstatus (fst (checkSystemHealth cfg clock net n hm))
     = worstOf (recordedStatuses (adapters (fst (checkSystemHealth cfg clock net n hm)))
                  registryKeys)"
proof -
  obtain adapters0 n0 where init: "initAdapters clock n registryKeys Map.empty = (adapters0, n0)"
    by (cases "initAdapters clock n registryKeys Map.empty")
  have n0: "n0 = n + length registryKeys"
    using initAdapters_readings [of clock n registryKeys Map.empty] init by simp
  let ?vars = "\<lparr>cvReadings = n0, cvAdapters = adapters0, cvHealthState = healthState hm,
                 cvOverall = healthy\<rparr>"
  let ?loop = "checkLoop cfg clock net 0 registryKeys ?vars"
  let ?hs = "probes cfg clock net 0 n0 registryKeys"
  have sys: "checkSystemHealth cfg clock net n hm =
      (\<lparr>sstatus = cvOverall (fst ?loop), adapters = cvAdapters (fst ?loop),
        timestamp = clock (cvReadings (fst ?loop))\<rparr>,
       hm\<lparr>healthState := cvHealthState (fst ?loop),
          lastSystemCheck := Some (clock (cvReadings (fst ?loop)))\<rparr>,
       Suc (cvReadings (fst ?loop)), snd ?loop)"
    using init by (simp add: checkSystemHealth_def Let_def split: prod.splits)
  have recs: "cvAdapters (fst ?loop) (registryKeys ! j) = Some (?hs ! j) \<and>
              cvHealthState (fst ?loop) (registryKeys ! j) = Some (?hs ! j)"
    if "j < length registryKeys" for j
    using checkLoop_records [OF registryKeys_distinct that, of cfg clock net 0 ?vars] by simp
  have nth: "?hs ! j = fst (checkAdapterHealth cfg clock (n + length registryKeys + 3 * j) (net j)
                              (registryKeys ! j))"
    if "j < length registryKeys" for j
    using probes_nth [OF that, of cfg clock net 0 n0] n0 by simp
  have sts: "recordedStatuses (cvAdapters (fst ?loop)) registryKeys = map hstatus ?hs"
    by (rule recordedStatuses_records) (simp_all add: recs)
  have overall: "cvOverall (fst ?loop) = worstOf (map hstatus ?hs)"
    using checkLoop_overall [of cfg clock net 0 registryKeys ?vars]
    by (simp add: worstOf_def Let_def)
  show ?thesis
    unfolding sys using checkLoop_calls [of cfg clock net 0 registryKeys ?vars] recs nth sts overall
    by simp
qed

theorem checkSystemHealth_worst_case_witness:
  "0 < length registryKeys \<and> registryKeys ! 0 = ''pdf-text-extractor'' \<and>
   map_option latency
     (adapters (fst (checkSystemHealth \<lparr>retry = None\<rparr> slowFirstClock healthyNet 0
                       (fst newHealthManager))) ''pdf-text-extractor'')
     = Some 1500 \<and>
   recordedStatuses
     (adapters (fst (checkSystemHealth \<lparr>retry = None\<rparr> slowFirstClock healthyNet 0
                       (fst newHealthManager)))) registryKeys
     = [degraded, healthy, healthy, healthy, healthy, healthy, healthy] \<and>
   sstatus (fst (checkSystemHealth \<lparr>retry = None\<rparr> slowFirstClock healthyNet 0
                   (fst newHealthManager))) = degraded"
proof -
  let ?sys = "checkSystemHealth \<lparr>retry = None\<rparr> slowFirstClock healthyNet 0 (fst newHealthManager)"
  note spec = checkSystemHealth_worst_case
    [of "\<lparr>retry = None\<rparr>" slowFirstClock healthyNet 0 "fst newHealthManager"]
  have keys: "0 < length registryKeys" "registryKeys ! 0 = ''pdf-text-extractor''"
    by (simp_all add: registryKeys_def adapterRegistry_def)
  have probe: "fst (checkAdapterHealth \<lparr>retry = None\<rparr> slowFirstClock (0 + length registryKeys + 3 * 0)
                      (healthyNet 0) ''pdf-text-extractor'')
      = \<lparr>hstatus = degraded, latency = 1500, lastCheck = 1500,
         hmessage = Some ''High latency detected''\<rparr>"
    by (simp add: eval_samples eval_health)
  from spec have "\<forall>j < length registryKeys.
      adapters (fst ?sys) (registryKeys ! j)
        = Some (fst (checkAdapterHealth \<lparr>retry = None\<rparr> slowFirstClock
                       (0 + length registryKeys + 3 * j) (healthyNet j) (registryKeys ! j)))"
    by blast
  with keys have "adapters (fst ?sys) ''pdf-text-extractor''
      = Some (fst (checkAdapterHealth \<lparr>retry = None\<rparr> slowFirstClock (0 + length registryKeys + 3 * 0)
                     (healthyNet 0) ''pdf-text-extractor''))"
    by metis
  with probe have first: "map_option latency (adapters (fst ?sys) ''pdf-text-extractor'') = Some 1500"
    by simp
  have recorded: "recordedStatuses (adapters (fst ?sys)) registryKeys
      = [degraded, healthy, healthy, healthy, healthy, healthy, healthy]"
    unfolding checkSystemHealth_fst
    by (simp add: eval_samples eval_health checkLoop_fst_Cons afterProbe_def del: checkLoop.simps(2))
  from spec have "sstatus (fst ?sys) = worstOf (recordedStatuses (adapters (fst ?sys)) registryKeys)"
    by blast
  with recorded have "sstatus (fst ?sys) = degraded"
    by (simp add: worstOf_def)
  with keys first recorded show ?thesis
    by simp
qed

section \<open>Monitoring\<close>

lemma clear_held:
  "monitorInvariant (hm, rt) \<Longrightarrow> checkInterval hm = Some h \<Longrightarrow>
   activeIntervals (clearInterval rt h) = []"
  by (cases "activeIntervals rt") (auto simp: monitorInvariant_def clearInterval_def)

lemma start_intervals:
  "monitorInvariant s \<Longrightarrow>
   activeIntervals (snd (startMonitoring s interval)) =
     [(nextHandle (snd s), case interval of Some i \<Rightarrow> i | None \<Rightarrow> 60000)] \<and>
   checkInterval (fst (startMonitoring s interval)) = Some (nextHandle (snd s))"
proof (cases s)
  case (Pair hm rt)
  assume inv: "monitorInvariant s"
  show ?thesis
  proof (cases "checkInterval hm")
    case None
    with inv Pair show ?thesis
      by (simp add: startMonitoring_def setInterval_def monitorInvariant_def Let_def)
  next
    case (Some h)
    with clear_held [of hm rt h] inv Pair show ?thesis
      by (simp add: startMonitoring_def setInterval_def clearInterval_def Let_def)
  qed
qed

lemma start_invariant: "monitorInvariant s \<Longrightarrow> monitorInvariant (startMonitoring s interval)"
  using start_intervals [of s interval] by (simp add: monitorInvariant_def)

lemma stop_invariant: "monitorInvariant s \<Longrightarrow> monitorInvariant (stopMonitoring s)"
proof (cases s)
  case (Pair hm rt)
  assume inv: "monitorInvariant s"
  show ?thesis
  proof (cases "checkInterval hm")
    case None
    with inv Pair show ?thesis by (simp add: stopMonitoring_def)
  next
    case (Some h)
    with clear_held [of hm rt h] inv Pair show ?thesis
      by (simp add: stopMonitoring_def monitorInvariant_def)
  qed
qed

lemma new_invariant: "monitorInvariant newHealthManager"
  by (simp add: monitorInvariant_def newHealthManager_def)

lemma fold_invariant: "monitorInvariant s \<Longrightarrow> monitorInvariant (fold monitorCall calls s)"
proof (induction calls arbitrary: s)
  case Nil
  then show ?case by simp
next
  case (Cons c calls)
  then show ?case
    by (cases c) (simp_all add: start_invariant stop_invariant)
qed

lemma stop_idle: "checkInterval (fst s) = None \<Longrightarrow> stopMonitoring s = s"
  by (cases s) (simp add: stopMonitoring_def)

text \<open>
  Claim C9. After any sequence of \<open>startMonitoring\<close> and \<open>stopMonitoring\<close> calls on a new
  manager there is at most one active timer, the one whose handle the manager holds; two
  consecutive \<open>startMonitoring\<close> calls leave exactly one active timer, with the period of
  the second call; and \<open>stopMonitoring\<close> on a manager that is not monitoring changes
  nothing.
\<close>

theorem monitor_single_timer:
  "length (activeIntervals (snd (fold monitorCall calls newHealthManager))) \<le> 1 \<and>
   map fst (activeIntervals (snd (fold monitorCall calls newHealthManager))) =
     (case checkInterval (fst (fold monitorCall calls newHealthManager)) of
        Some h \<Rightarrow> [h] | None \<Rightarrow> []) \<and>
   length (activeIntervals (snd (startMonitoring
             (startMonitoring (fold monitorCall calls newHealthManager) i1) i2))) = 1 \<and>
   map snd (activeIntervals (snd (startMonitoring
             (startMonitoring (fold monitorCall calls newHealthManager) i1) i2))) =
     [case i2 of Some i \<Rightarrow> i | None \<Rightarrow> 60000] \<and>
   (checkInterval (fst (fold monitorCall calls newHealthManager)) = None \<longrightarrow>
      stopMonitoring (fold monitorCall calls newHealthManager)
        = fold monitorCall calls newHealthManager)"
proof -
  let ?s = "fold monitorCall calls newHealthManager"
  have inv: "monitorInvariant ?s"
    by (rule fold_invariant [OF new_invariant])
  then have held: "map fst (activeIntervals (snd ?s)) =
      (case checkInterval (fst ?s) of Some h \<Rightarrow> [h] | None \<Rightarrow> [])"
    by (simp add: monitorInvariant_def)
  have "length (map fst (activeIntervals (snd ?s))) \<le> 1"
    unfolding held by (simp split: option.splits)
  then have one: "length (activeIntervals (snd ?s)) \<le> 1"
    by simp
  have twice: "activeIntervals (snd (startMonitoring (startMonitoring ?s i1) i2)) =
      [(nextHandle (snd (startMonitoring ?s i1)), case i2 of Some i \<Rightarrow> i | None \<Rightarrow> 60000)]"
    using start_intervals [OF start_invariant [OF inv, of i1], of i2] by simp
  show ?thesis
    using one held twice stop_idle [of ?s] by simp
qed

theorem monitor_single_timer_witness:
  "checkInterval (fst (fold monitorCall [Start None, Stop] newHealthManager)) = None \<and>
   stopMonitoring (fold monitorCall [Start None, Stop] newHealthManager)
     = fold monitorCall [Start None, Stop] newHealthManager \<and>
   activeIntervals (snd (startMonitoring (startMonitoring newHealthManager (Some 30000)) None))
     = [(2, 60000)] \<and>
   stopMonitoring newHealthManager = newHealthManager"
  using monitor_single_timer [of "[Start None, Stop]" None None]
    monitor_single_timer [of "[]" "Some 30000" None]
  by (simp add: newHealthManager_def startMonitoring_def stopMonitoring_def setInterval_def
      clearInterval_def Let_def)


end
